theory Spec2Isabelle
  imports Complex_Main
begin

section \<open>The tridiagonal solver of \<open>material/grad_jit_example.ipynb\<close>\<close>

text \<open>
  The notebook defines \<open>tridiag_solve(a, b, c, f)\<close>, the Thomas algorithm written as two
  \<open>jax.lax.scan\<close> passes, and \<open>scal_fun(params)\<close>, which assembles a system from a
  parameter vector and returns the Euclidean norm of its solution.

  Arrays are lists. The scalar type is a parameter of the solver: it is read over
  \<^typ>\<open>real\<close> for the exact statements, and over any scalar type whose values that are
  not finite propagate as in floating point for the behaviour at a zero pivot.
  Python exceptions are values of the type \<open>error\<close>.
\<close>

datatype error = IndexError | ShapeMismatch | ZeroDivisionError

subsection \<open>\<open>jax.lax.scan\<close>\<close>

text \<open>
  \<open>scan f init xs\<close> threads a carry through \<open>xs\<close> from left to right and returns the
  final carry together with the list of the outputs of every step.
\<close>

fun scan :: "('c \<Rightarrow> 'x \<Rightarrow> 'c \<times> 'y) \<Rightarrow> 'c \<Rightarrow> 'x list \<Rightarrow> 'c \<times> 'y list" where
  "scan step carry [] = (carry, [])"
| "scan step carry (x # xs) =
     (case step carry x of (carry', y) \<Rightarrow>
        (case scan step carry' xs of (final, ys) \<Rightarrow> (final, y # ys)))"

subsection \<open>Forward elimination (lines 30 to 42)\<close>

definition forward_scan_scal ::
  "'a \<times> 'a \<Rightarrow> 'a \<times> 'a \<times> 'a \<times> 'a \<Rightarrow>
   ('a::{one,plus,minus,uminus,times,inverse} \<times> 'a) \<times> ('a \<times> 'a)" where
  "forward_scan_scal carry x =
     (case carry of (f_im1, q_im1) \<Rightarrow>
      case x of (a, b, c, f) \<Rightarrow>
        let cff = 1 / (b + a * q_im1);
            f_i = cff * (f - a * f_im1);
            q_i = - cff * c
        in ((f_i, q_i), (f_i, q_i)))"

text \<open>
  \<open>jnp.stack([a, b, c, f])[:, 1:].T\<close>: the rows \<open>(a[i], b[i], c[i], f[i])\<close> for
  \<open>i = 1 .. n-1\<close>. \<open>jnp.stack\<close> raises unless the four arrays have one shape; the
  callers below check that before they build the rows.
\<close>

definition stack4_tail :: "'a list \<Rightarrow> 'a list \<Rightarrow> 'a list \<Rightarrow> 'a list \<Rightarrow> ('a \<times> 'a \<times> 'a \<times> 'a) list" where
  "stack4_tail a b c f = drop 1 (zip a (zip b (zip c f)))"

text \<open>
  Lines 38 to 42. \<open>f[0]\<close>, \<open>b[0]\<close> and \<open>c[0]\<close> are read first (an empty array raises
  IndexError), then the arrays are stacked. The result is the pair of the arrays \<open>f\<close>
  and \<open>q\<close> that the second half of the function works on.
\<close>

definition forward_pass ::
  "'a list \<Rightarrow> 'a list \<Rightarrow> 'a list \<Rightarrow> 'a list \<Rightarrow>
   error + ('a::{one,plus,minus,uminus,times,inverse} list \<times> 'a list)" where
  "forward_pass a b c f =
     (if f = [] \<or> b = [] \<or> c = [] then Inl IndexError
      else if \<not> (length a = length b \<and> length b = length c \<and> length c = length f)
        then Inl ShapeMismatch
      else
        let init = (f ! 0 / b ! 0, - c ! 0 / b ! 0);
            xs = stack4_tail a b c f;
            ys = snd (scan forward_scan_scal init xs);
            f' = [fst init] @ map fst ys;
            q' = [snd init] @ map snd ys
        in Inr (f', q'))"

subsection \<open>Backward substitution (lines 44 to 53)\<close>

definition reverse_scan_scal :: "'a \<Rightarrow> 'a \<times> 'a \<Rightarrow> ('a::{plus,times}) \<times> 'a" where
  "reverse_scan_scal carry x =
     (case x of (q_rev, f_rev) \<Rightarrow>
        let carry' = f_rev + q_rev * carry in (carry', carry'))"

text \<open>\<open>jnp.stack([q[::-1], f[::-1]])[:, 1:].T\<close>.\<close>

definition stack2_rev_tail :: "'a list \<Rightarrow> 'a list \<Rightarrow> ('a \<times> 'a) list" where
  "stack2_rev_tail q f = drop 1 (zip (rev q) (rev f))"

definition backward_pass :: "'a list \<Rightarrow> 'a list \<Rightarrow> error + ('a::{plus,times}) list" where
  "backward_pass f q =
     (if f = [] then Inl IndexError
      else if length q \<noteq> length f then Inl ShapeMismatch
      else
        let init = last f;
            xs = stack2_rev_tail q f;
            x = snd (scan reverse_scan_scal init xs);
            x' = [init] @ x
        in Inr (rev x'))"

subsection \<open>The solver\<close>

definition tridiag_solve ::
  "'a list \<Rightarrow> 'a list \<Rightarrow> 'a list \<Rightarrow> 'a list \<Rightarrow>
   error + ('a::{one,plus,minus,uminus,times,inverse}) list" where
  "tridiag_solve a b c f =
     (case forward_pass a b c f of
        Inl e \<Rightarrow> Inl e
      | Inr (f', q') \<Rightarrow> backward_pass f' q')"

section \<open>The scalar function \<open>scal_fun\<close> (lines 105 to 116)\<close>

text \<open>The problem size is the global \<open>nz = 100\<close> of the notebook.\<close>

definition nz :: nat where
  "nz = 100"

text \<open>\<open>jnp.tile(xs, reps)\<close> on a vector: \<open>reps\<close> copies of \<open>xs\<close>, one after the other.\<close>

definition tile :: "'a list \<Rightarrow> nat \<Rightarrow> 'a list" where
  "tile xs reps = concat (replicate reps xs)"

text \<open>
  \<open>jnp.roll(xs, shift)\<close> on a vector: the entry at \<open>i\<close> moves to \<open>(i + shift) mod d\<close>,
  that is, the vector is cut at \<open>(-shift) mod d\<close> and the two parts are swapped. An
  empty vector is returned as it is.
\<close>

definition roll :: "'a list \<Rightarrow> int \<Rightarrow> 'a list" where
  "roll xs shift =
     (if xs = [] then xs
      else let i = nat ((- shift) mod int (length xs)) in drop i xs @ take i xs)"

text \<open>\<open>jnp.linalg.norm(x)\<close> on a vector: the square root of the sum of the squares.\<close>

definition linalg_norm :: "real list \<Rightarrow> real" where
  "linalg_norm x = sqrt (sum_list (map (\<lambda>v. v * v) x))"

text \<open>
  \<open>nz // params.shape[0]\<close> is a division of Python integers: it raises
  ZeroDivisionError for an empty \<open>params\<close>. The offsets \<open>.5\<close>, \<open>2\<close>, \<open>.5\<close> are added
  to every entry of \<open>a\<close>, \<open>b\<close>, \<open>c\<close>; \<open>f\<close> gets none.
\<close>

definition scal_fun :: "real list \<Rightarrow> error + real" where
  "scal_fun params =
     (if length params = 0 then Inl ZeroDivisionError
      else
        let n_tiles = nz div length params + 1;
            a = map (\<lambda>v. v + 1 / 2) (take nz (tile params n_tiles));
            params_rolled = roll params 1;
            b = map (\<lambda>v. v + 2) (take nz (tile params_rolled n_tiles));
            params_rolled = roll params 2;
            c = map (\<lambda>v. v + 1 / 2) (take nz (tile params_rolled n_tiles));
            params_rolled = roll params 3;
            f = take nz (tile params_rolled n_tiles)
        in case tridiag_solve a b c f of
             Inl e \<Rightarrow> Inl e
           | Inr x \<Rightarrow> Inr (linalg_norm x))"

section \<open>The recurrences of the specification\<close>

text \<open>
  The forward sequence by index: the seed \<open>f_0 = f[0]/b[0]\<close>, \<open>q_0 = -c[0]/b[0]\<close>
  and, for \<open>i \<ge> 1\<close>, \<open>cff = 1/(b[i] + a[i] q_{i-1})\<close>,
  \<open>f_i = cff (f[i] - a[i] f_{i-1})\<close>, \<open>q_i = -cff c[i]\<close>.
\<close>

fun fq_seq :: "'a list \<Rightarrow> 'a list \<Rightarrow> 'a list \<Rightarrow> 'a list \<Rightarrow> nat \<Rightarrow>
    ('a::{one,plus,minus,uminus,times,inverse}) \<times> 'a" where
  "fq_seq a b c f 0 = (f ! 0 / b ! 0, - c ! 0 / b ! 0)"
| "fq_seq a b c f (Suc i) =
     (case fq_seq a b c f i of (f_prev, q_prev) \<Rightarrow>
        let cff = 1 / (b ! Suc i + a ! Suc i * q_prev)
        in (cff * (f ! Suc i - a ! Suc i * f_prev), - cff * c ! Suc i))"

text \<open>
  The backward sequence by index: \<open>x_{n-1} = f_{n-1}\<close> and
  \<open>x_i = f_i + q_i x_{i+1}\<close> below it, for \<open>n = length f\<close>.
\<close>

function x_seq :: "'a list \<Rightarrow> 'a list \<Rightarrow> nat \<Rightarrow> ('a::{plus,times})" where
  "x_seq f q i =
     (if Suc i < length f then f ! i + q ! i * x_seq f q (Suc i) else f ! (length f - 1))"
  by pat_completeness auto
termination
  by (relation "measure (\<lambda>(f, q, i). length f - i)") auto

declare x_seq.simps [simp del]

text \<open>
  The pivot of row \<open>i\<close> is the divisor of step \<open>i\<close>: \<open>b[0]\<close> for the seed and
  \<open>b[i] + a[i] q_{i-1}\<close> after it.
\<close>

definition pivot :: "'a list \<Rightarrow> 'a list \<Rightarrow> 'a list \<Rightarrow> 'a list \<Rightarrow> nat \<Rightarrow>
    ('a::{one,plus,minus,uminus,times,inverse})" where
  "pivot a b c f i =
     (if i = 0 then b ! 0 else b ! i + a ! i * snd (fq_seq a b c f (i - 1)))"

definition nonzero_pivots :: "'a list \<Rightarrow> 'a list \<Rightarrow> 'a list \<Rightarrow>
    ('a::{zero,one,plus,minus,uminus,times,inverse}) list \<Rightarrow> bool" where
  "nonzero_pivots a b c f = list_all (\<lambda>i. pivot a b c f i \<noteq> 0) [0..<length b]"

text \<open>
  The left-hand side of equation \<open>i\<close> of the tridiagonal system at \<open>x\<close>; the
  neighbours \<open>x[-1]\<close> and \<open>x[n]\<close> count as 0.
\<close>

definition row_lhs :: "real list \<Rightarrow> real list \<Rightarrow> real list \<Rightarrow> real list \<Rightarrow> nat \<Rightarrow> real" where
  "row_lhs a b c x i =
     a ! i * (if i = 0 then 0 else x ! (i - 1)) + b ! i * x ! i
       + c ! i * (if Suc i < length x then x ! Suc i else 0)"

subsection \<open>The assembled system, in the words of the specification\<close>

text \<open>
  \<open>params\<close> rotated cyclically by \<open>s\<close>: entry \<open>j\<close> of the result is entry
  \<open>(j - s) mod d\<close> of \<open>params\<close>. Repeating a vector cyclically to cover length \<open>n\<close>
  and truncating to \<open>n\<close>: entry \<open>i\<close> is entry \<open>i mod d\<close> of the vector. The four
  sequences use the shifts 0, 1, 2, 3 and the offsets \<open>+0.5\<close>, \<open>+2\<close>, \<open>+0.5\<close>, none.
\<close>

definition spec_rotated :: "'a list \<Rightarrow> nat \<Rightarrow> 'a list" where
  "spec_rotated params s =
     map (\<lambda>j. params ! ((j + length params - s mod length params) mod length params))
       [0..<length params]"

definition spec_cover :: "'a list \<Rightarrow> nat \<Rightarrow> 'a list" where
  "spec_cover xs n = map (\<lambda>i. xs ! (i mod length xs)) [0..<n]"

definition spec_a :: "real list \<Rightarrow> real list" where
  "spec_a params = map (\<lambda>v. v + 1 / 2) (spec_cover (spec_rotated params 0) nz)"

definition spec_b :: "real list \<Rightarrow> real list" where
  "spec_b params = map (\<lambda>v. v + 2) (spec_cover (spec_rotated params 1) nz)"

definition spec_c :: "real list \<Rightarrow> real list" where
  "spec_c params = map (\<lambda>v. v + 1 / 2) (spec_cover (spec_rotated params 2) nz)"

definition spec_f :: "real list \<Rightarrow> real list" where
  "spec_f params = spec_cover (spec_rotated params 3) nz"

section \<open>A scalar type with special values\<close>

text \<open>
  In floating point a division by zero is not an error: it gives an infinity, or NaN for
  \<open>0/0\<close>, and these special values propagate through the later operations. The
  statement on zero pivots assumes only these propagation laws of the scalar type.
  \<open>fval\<close> is one type that obeys them: the reals with \<open>+Inf\<close>, \<open>-Inf\<close> and NaN added,
  exact on the finite values. It is not the \<open>float32\<close> of the notebook, which rounds;
  it shows that the laws can be met, and gives the statement a concrete instance.
\<close>

datatype fval = Fin real | PInf | NInf | NaN

fun is_finite :: "fval \<Rightarrow> bool" where
  "is_finite (Fin _) = True"
| "is_finite _ = False"

fun fneg :: "fval \<Rightarrow> fval" where
  "fneg (Fin x) = Fin (- x)"
| "fneg PInf = NInf"
| "fneg NInf = PInf"
| "fneg NaN = NaN"

fun fadd :: "fval \<Rightarrow> fval \<Rightarrow> fval" where
  "fadd NaN _ = NaN"
| "fadd _ NaN = NaN"
| "fadd (Fin x) (Fin y) = Fin (x + y)"
| "fadd PInf NInf = NaN"
| "fadd NInf PInf = NaN"
| "fadd PInf _ = PInf"
| "fadd _ PInf = PInf"
| "fadd NInf _ = NInf"
| "fadd _ NInf = NInf"

fun fmul :: "fval \<Rightarrow> fval \<Rightarrow> fval" where
  "fmul NaN _ = NaN"
| "fmul _ NaN = NaN"
| "fmul (Fin x) (Fin y) = Fin (x * y)"
| "fmul (Fin x) PInf = (if x = 0 then NaN else if 0 < x then PInf else NInf)"
| "fmul (Fin x) NInf = (if x = 0 then NaN else if 0 < x then NInf else PInf)"
| "fmul PInf (Fin y) = (if y = 0 then NaN else if 0 < y then PInf else NInf)"
| "fmul NInf (Fin y) = (if y = 0 then NaN else if 0 < y then NInf else PInf)"
| "fmul PInf PInf = PInf"
| "fmul PInf NInf = NInf"
| "fmul NInf PInf = NInf"
| "fmul NInf NInf = PInf"

fun fdiv :: "fval \<Rightarrow> fval \<Rightarrow> fval" where
  "fdiv NaN _ = NaN"
| "fdiv _ NaN = NaN"
| "fdiv (Fin x) (Fin y) =
     (if y = 0 then (if x = 0 then NaN else if 0 < x then PInf else NInf) else Fin (x / y))"
| "fdiv (Fin x) PInf = Fin 0"
| "fdiv (Fin x) NInf = Fin 0"
| "fdiv PInf (Fin y) = (if 0 \<le> y then PInf else NInf)"
| "fdiv NInf (Fin y) = (if 0 \<le> y then NInf else PInf)"
| "fdiv _ _ = NaN"

instantiation fval :: "{zero,one,plus,minus,uminus,times,inverse}"
begin

definition zero_fval :: fval where "zero_fval = Fin 0"
definition one_fval :: fval where "one_fval = Fin 1"
definition plus_fval :: "fval \<Rightarrow> fval \<Rightarrow> fval" where "plus_fval x y = fadd x y"
definition uminus_fval :: "fval \<Rightarrow> fval" where "uminus_fval x = fneg x"
definition minus_fval :: "fval \<Rightarrow> fval \<Rightarrow> fval" where "minus_fval x y = fadd x (fneg y)"
definition times_fval :: "fval \<Rightarrow> fval \<Rightarrow> fval" where "times_fval x y = fmul x y"
definition divide_fval :: "fval \<Rightarrow> fval \<Rightarrow> fval" where "divide_fval x y = fdiv x y"
definition inverse_fval :: "fval \<Rightarrow> fval" where "inverse_fval x = fdiv (Fin 1) x"

instance ..

end

lemmas fval_ops = zero_fval_def one_fval_def plus_fval_def uminus_fval_def minus_fval_def
  times_fval_def divide_fval_def

section \<open>The two passes compute the recurrences\<close>

lemma snd_scan_Cons:
  "snd (scan step carry (x # xs)) = snd (step carry x) # snd (scan step (fst (step carry x)) xs)"
  by (simp split: prod.splits)

lemma length_scan: "length (snd (scan step carry xs)) = length xs"
  by (induction xs arbitrary: carry) (simp_all add: snd_scan_Cons del: scan.simps(2))

lemma scan_nth:
  assumes "\<And>s x. step s x = (g s x, g s x)"
  shows "k < length xs \<Longrightarrow> snd (scan step carry xs) ! k = foldl g carry (take (Suc k) xs)"
proof (induction xs arbitrary: carry k)
  case Nil
  then show ?case by simp
next
  case (Cons x xs)
  show ?case
  proof (cases k)
    case 0
    then show ?thesis by (simp add: snd_scan_Cons assms del: scan.simps(2))
  next
    case (Suc j)
    with Cons.prems have "j < length xs" by simp
    from Cons.IH [OF this, of "g carry x"] Suc show ?thesis
      by (simp add: snd_scan_Cons assms del: scan.simps(2))
  qed
qed

lemma forward_step: "forward_scan_scal s x = (fst (forward_scan_scal s x), fst (forward_scan_scal s x))"
  by (simp add: forward_scan_scal_def Let_def split: prod.splits)

lemma stack4_tail_length:
  "length a = n \<Longrightarrow> length b = n \<Longrightarrow> length c = n \<Longrightarrow> length f = n \<Longrightarrow>
   length (stack4_tail a b c f) = n - 1"
  by (simp add: stack4_tail_def)

lemma stack4_tail_nth:
  "length a = n \<Longrightarrow> length b = n \<Longrightarrow> length c = n \<Longrightarrow> length f = n \<Longrightarrow> Suc k < n \<Longrightarrow>
   stack4_tail a b c f ! k = (a ! Suc k, b ! Suc k, c ! Suc k, f ! Suc k)"
  by (simp add: stack4_tail_def)

lemma forward_foldl:
  assumes "length a = n" "length b = n" "length c = n" "length f = n"
  shows "k < n \<Longrightarrow>
    foldl (\<lambda>s x. fst (forward_scan_scal s x)) (f ! 0 / b ! 0, - c ! 0 / b ! 0)
      (take k (stack4_tail a b c f)) = fq_seq a b c f k"
proof (induction k)
  case 0
  then show ?case by simp
next
  case (Suc k)
  then have k: "k < length (stack4_tail a b c f)"
    using stack4_tail_length [OF assms] by simp
  from Suc show ?case
    by (simp add: take_Suc_conv_app_nth [OF k] stack4_tail_nth [OF assms]
        forward_scan_scal_def Let_def split: prod.splits)
qed

lemma forward_pass_seq:
  assumes "1 \<le> n" "length a = n" "length b = n" "length c = n" "length f = n"
  shows "forward_pass a b c f =
    Inr (map (\<lambda>i. fst (fq_seq a b c f i)) [0..<n], map (\<lambda>i. snd (fq_seq a b c f i)) [0..<n])"
proof -
  let ?init = "(f ! 0 / b ! 0, - c ! 0 / b ! 0)"
  let ?ys = "snd (scan forward_scan_scal ?init (stack4_tail a b c f))"
  have len: "length ?ys = n - 1"
    by (simp add: length_scan stack4_tail_length [OF assms(2-5)])
  have nth: "?ys ! k = fq_seq a b c f (Suc k)" if "Suc k < n" for k
  proof -
    from that have "k < length (stack4_tail a b c f)"
      by (simp add: stack4_tail_length [OF assms(2-5)])
    then have "?ys ! k = foldl (\<lambda>s x. fst (forward_scan_scal s x)) ?init
        (take (Suc k) (stack4_tail a b c f))"
      by (rule scan_nth [OF forward_step])
    with forward_foldl [OF assms(2-5) that] show ?thesis by simp
  qed
  have all: "(?init # ?ys) ! i = fq_seq a b c f i" if "i < n" for i
    using that nth by (cases i) simp_all
  have "map fst (?init # ?ys) = map (\<lambda>i. fst (fq_seq a b c f i)) [0..<n]"
    using assms(1) len all by (intro nth_equalityI) (auto simp del: list.map)
  moreover have "map snd (?init # ?ys) = map (\<lambda>i. snd (fq_seq a b c f i)) [0..<n]"
    using assms(1) len all by (intro nth_equalityI) (auto simp del: list.map)
  moreover have "f \<noteq> []" "b \<noteq> []" "c \<noteq> []" using assms by auto
  ultimately show ?thesis
    using assms by (simp add: forward_pass_def Let_def)
qed


lemma reverse_step:
  "reverse_scan_scal s x = (fst (reverse_scan_scal s x), fst (reverse_scan_scal s x))"
  by (simp add: reverse_scan_scal_def Let_def split: prod.splits)

lemma stack2_rev_tail_length:
  "length f = n \<Longrightarrow> length q = n \<Longrightarrow> length (stack2_rev_tail q f) = n - 1"
  by (simp add: stack2_rev_tail_def)

lemma stack2_rev_tail_nth:
  "length f = n \<Longrightarrow> length q = n \<Longrightarrow> Suc k < n \<Longrightarrow>
   stack2_rev_tail q f ! k = (q ! (n - Suc (Suc k)), f ! (n - Suc (Suc k)))"
  by (simp add: stack2_rev_tail_def rev_nth)

lemma backward_foldl:
  assumes "length f = n" "length q = n"
  shows "k < n \<Longrightarrow>
    foldl (\<lambda>s x. fst (reverse_scan_scal s x)) (last f) (take k (stack2_rev_tail q f))
      = x_seq f q (n - Suc k)"
proof (induction k)
  case 0
  with assms have "f \<noteq> []" by auto
  then have "last f = f ! (n - 1)" using assms by (simp add: last_conv_nth)
  moreover have "\<not> Suc (n - Suc 0) < n" using "0.prems" by simp
  ultimately show ?case using assms by (simp add: x_seq.simps [of f q "n - Suc 0"])
next
  case (Suc k)
  then have k: "k < length (stack2_rev_tail q f)"
    using stack2_rev_tail_length [OF assms] by simp
  from Suc.prems have idx: "Suc (n - Suc (Suc k)) = n - Suc k" by simp
  from Suc.prems assms have "x_seq f q (n - Suc (Suc k)) =
      f ! (n - Suc (Suc k)) + q ! (n - Suc (Suc k)) * x_seq f q (n - Suc k)"
    by (subst x_seq.simps) (simp add: idx)
  with Suc show ?case
    by (simp add: take_Suc_conv_app_nth [OF k] stack2_rev_tail_nth [OF assms]
        reverse_scan_scal_def Let_def)
qed

lemma backward_pass_seq:
  assumes "1 \<le> n" "length f = n" "length q = n"
  shows "backward_pass f q = Inr (map (x_seq f q) [0..<n])"
proof -
  let ?ys = "snd (scan reverse_scan_scal (last f) (stack2_rev_tail q f))"
  have len: "length ?ys = n - 1"
    by (simp add: length_scan stack2_rev_tail_length [OF assms(2,3)])
  have nth: "?ys ! k = x_seq f q (n - Suc (Suc k))" if "Suc k < n" for k
  proof -
    from that have "k < length (stack2_rev_tail q f)"
      by (simp add: stack2_rev_tail_length [OF assms(2,3)])
    then have "?ys ! k = foldl (\<lambda>s x. fst (reverse_scan_scal s x)) (last f)
        (take (Suc k) (stack2_rev_tail q f))"
      by (rule scan_nth [OF reverse_step])
    with backward_foldl [OF assms(2,3) that] show ?thesis by simp
  qed
  have first: "last f = x_seq f q (n - Suc 0)"
    using backward_foldl [OF assms(2,3), of 0] assms(1) by simp
  have all: "(last f # ?ys) ! j = x_seq f q (n - Suc j)" if "j < n" for j
    using that nth first by (cases j) simp_all
  have "rev (last f # ?ys) = map (x_seq f q) [0..<n]"
  proof (intro nth_equalityI)
    show "length (rev (last f # ?ys)) = length (map (x_seq f q) [0..<n])"
      using assms(1) len by simp
  next
    fix i assume "i < length (rev (last f # ?ys))"
    then have i: "i < n" using assms(1) len by simp
    then have "rev (last f # ?ys) ! i = (last f # ?ys) ! (n - Suc i)"
      using assms(1) len by (subst rev_nth) simp_all
    also have "\<dots> = x_seq f q (n - Suc (n - Suc i))"
      using i by (intro all) simp
    also have "n - Suc (n - Suc i) = i" using i by simp
    finally show "rev (last f # ?ys) ! i = map (x_seq f q) [0..<n] ! i"
      using i by simp
  qed
  moreover have "f \<noteq> []" using assms by auto
  ultimately show ?thesis
    using assms by (simp add: backward_pass_def Let_def)
qed


lemma tridiag_solve_seq:
  assumes "1 \<le> n" "length a = n" "length b = n" "length c = n" "length f = n"
  shows "tridiag_solve a b c f =
    Inr (map (x_seq (map (\<lambda>i. fst (fq_seq a b c f i)) [0..<n])
                    (map (\<lambda>i. snd (fq_seq a b c f i)) [0..<n])) [0..<n])"
  using assms
  by (simp add: tridiag_solve_def forward_pass_seq [OF assms] backward_pass_seq [of n])

lemma thomas_row_first:
  fixes b0 :: real
  assumes "b0 \<noteq> 0"
  shows "b0 * (f0 / b0 + (- c0 / b0) * x1) + c0 * x1 = f0"
    and "b0 * (f0 / b0) = f0"
  using assms by (simp_all add: field_simps)

lemma thomas_row_inner:
  fixes a b qp :: real
  assumes "b + a * qp \<noteq> 0"
  shows "a * (fp + qp * (1 / (b + a * qp) * (f - a * fp) + (- (1 / (b + a * qp)) * c) * xn))
         + b * (1 / (b + a * qp) * (f - a * fp) + (- (1 / (b + a * qp)) * c) * xn) + c * xn = f"
    and "a * (fp + qp * (1 / (b + a * qp) * (f - a * fp)))
         + b * (1 / (b + a * qp) * (f - a * fp)) = f"
proof -
  define p where "p = b + a * qp"
  have p: "p \<noteq> 0" using assms by (simp add: p_def)
  have b: "b = p - a * qp" by (simp add: p_def)
  show "a * (fp + qp * (1 / (b + a * qp) * (f - a * fp) + (- (1 / (b + a * qp)) * c) * xn))
         + b * (1 / (b + a * qp) * (f - a * fp) + (- (1 / (b + a * qp)) * c) * xn) + c * xn = f"
    unfolding p_def [symmetric] using p by (simp add: b field_simps)
  show "a * (fp + qp * (1 / (b + a * qp) * (f - a * fp)))
         + b * (1 / (b + a * qp) * (f - a * fp)) = f"
    unfolding p_def [symmetric] using p by (simp add: b field_simps)
qed


lemma nonzero_pivotsD:
  "nonzero_pivots a b c f \<Longrightarrow> i < length b \<Longrightarrow> pivot a b c f i \<noteq> 0"
  by (simp add: nonzero_pivots_def list_all_iff)

lemma solve_rows:
  fixes a b c f :: "real list"
  assumes n: "1 \<le> n" and len: "length a = n" "length b = n" "length c = n" "length f = n"
    and piv: "nonzero_pivots a b c f"
    and x: "x = map (x_seq (map (\<lambda>i. fst (fq_seq a b c f i)) [0..<n])
                           (map (\<lambda>i. snd (fq_seq a b c f i)) [0..<n])) [0..<n]"
    and i: "i < n"
  shows "row_lhs a b c x i = f ! i"
proof -
  let ?F = "map (\<lambda>i. fst (fq_seq a b c f i)) [0..<n]"
  let ?Q = "map (\<lambda>i. snd (fq_seq a b c f i)) [0..<n]"
  let ?X = "x_seq ?F ?Q"
  have lx: "length x = n" by (simp add: x)
  have xn: "x ! j = ?X j" if "j < n" for j using that by (simp add: x)
  have step: "?X j = fst (fq_seq a b c f j) + snd (fq_seq a b c f j) * ?X (Suc j)"
    if "Suc j < n" for j
    using that by (subst x_seq.simps) simp
  have stop: "?X j = fst (fq_seq a b c f j)" if "Suc j = n" for j
    using that by (subst x_seq.simps) auto
  show ?thesis
  proof (cases i)
    case 0
    have b0: "b ! 0 \<noteq> 0"
      using nonzero_pivotsD [OF piv, of 0] n len by (simp add: pivot_def)
    show ?thesis
    proof (cases "Suc 0 < n")
      case True
      then show ?thesis
        using 0 lx xn [of 0] xn [of "Suc 0"] step [of 0] thomas_row_first(1) [OF b0]
        by (simp add: row_lhs_def)
    next
      case False
      with n have "Suc 0 = n" by simp
      then show ?thesis
        using 0 lx xn [of 0] stop [of 0] thomas_row_first(2) [OF b0]
        by (simp add: row_lhs_def)
    qed
  next
    case (Suc j)
    obtain fp qp where fq: "fq_seq a b c f j = (fp, qp)" by (cases "fq_seq a b c f j")
    have p: "b ! i + a ! i * qp \<noteq> 0"
      using nonzero_pivotsD [OF piv, of i] i len Suc fq by (simp add: pivot_def)
    have fqi: "fq_seq a b c f i =
        (1 / (b ! i + a ! i * qp) * (f ! i - a ! i * fp), - (1 / (b ! i + a ! i * qp)) * c ! i)"
      using Suc fq by (simp add: Let_def)
    have xj: "x ! j = fp + qp * x ! i"
      using Suc i xn [of j] xn [of i] step [of j] fq by simp
    show ?thesis
    proof (cases "Suc i < n")
      case True
      have "x ! i = 1 / (b ! i + a ! i * qp) * (f ! i - a ! i * fp)
          + (- (1 / (b ! i + a ! i * qp)) * c ! i) * x ! Suc i"
        using True i xn [of i] xn [of "Suc i"] step [of i] fqi by simp
      with thomas_row_inner(1) [OF p, of fp "f ! i" "c ! i" "x ! Suc i"] xj True lx Suc
      show ?thesis by (simp add: row_lhs_def)
    next
      case False
      with i have "Suc i = n" by simp
      then have "x ! i = 1 / (b ! i + a ! i * qp) * (f ! i - a ! i * fp)"
        using i xn [of i] stop [of i] fqi by simp
      with thomas_row_inner(2) [OF p, of fp "f ! i"] xj False lx Suc
      show ?thesis by (simp add: row_lhs_def)
    qed
  qed
qed

subsection \<open>What the solution does not read\<close>

lemma fq_seq_cong:
  assumes a: "\<And>j. 0 < j \<Longrightarrow> j < n \<Longrightarrow> a ! j = a' ! j"
    and c: "\<And>j. Suc j < n \<Longrightarrow> c ! j = c' ! j"
  shows "i < n \<Longrightarrow>
    fst (fq_seq a b c f i) = fst (fq_seq a' b c' f i) \<and>
    (Suc i < n \<longrightarrow> snd (fq_seq a b c f i) = snd (fq_seq a' b c' f i))"
proof (induction i)
  case 0
  then show ?case using c [of 0] by simp
next
  case (Suc i)
  then have "fq_seq a b c f i = fq_seq a' b c' f i"
    by (simp add: prod_eq_iff)
  then show ?case
    using a [of "Suc i"] c [of "Suc i"] Suc.prems by (simp add: Let_def split: prod.splits)
qed

lemma x_seq_cong:
  assumes "length f = n" "length f' = n" "\<And>j. j < n \<Longrightarrow> f ! j = f' ! j"
    and "\<And>j. Suc j < n \<Longrightarrow> q ! j = q' ! j"
  shows "x_seq f q i = x_seq f' q' i"
proof (induction "n - i" arbitrary: i)
  case 0
  then show ?case
    using assms(1,2) assms(3) [of "n - 1"] by (cases "n = 0") (simp_all add: x_seq.simps [of _ _ i])
next
  case (Suc k)
  then have i: "i < n" by simp
  show ?case
  proof (cases "Suc i < n")
    case True
    from Suc.hyps(1) [of "Suc i"] Suc.hyps(2) have "x_seq f q (Suc i) = x_seq f' q' (Suc i)"
      by simp
    with True assms(1,2) assms(3) [OF i] assms(4) [OF True] show ?thesis
      by (simp add: x_seq.simps [of _ _ i])
  next
    case False
    with i assms(1,2) assms(3) [of "n - 1"] show ?thesis
      by (simp add: x_seq.simps [of _ _ i])
  qed
qed

lemma solve_cong:
  assumes "1 \<le> n" "length a = n" "length a' = n" "length b = n" "length c = n"
    "length c' = n" "length f = n"
    and a: "\<And>j. 0 < j \<Longrightarrow> j < n \<Longrightarrow> a ! j = a' ! j"
    and c: "\<And>j. Suc j < n \<Longrightarrow> c ! j = c' ! j"
  shows "tridiag_solve a b c f = tridiag_solve a' b c' f"
proof -
  have "x_seq (map (\<lambda>i. fst (fq_seq a b c f i)) [0..<n])
              (map (\<lambda>i. snd (fq_seq a b c f i)) [0..<n]) i
      = x_seq (map (\<lambda>i. fst (fq_seq a' b c' f i)) [0..<n])
              (map (\<lambda>i. snd (fq_seq a' b c' f i)) [0..<n]) i" for i
    using fq_seq_cong [of n a a' c c' _ b f, OF a c]
    by (intro x_seq_cong [of _ n]) simp_all
  then show ?thesis
    using assms(1-7) by (simp add: tridiag_solve_seq [of n])
qed

subsection \<open>Tiling and rolling\<close>

lemma length_tile: "length (tile xs k) = k * length xs"
  by (induction k) (simp_all add: tile_def)

lemma tile_nth: "i < k * length xs \<Longrightarrow> tile xs k ! i = xs ! (i mod length xs)"
proof (induction k arbitrary: i)
  case 0
  then show ?case by simp
next
  case (Suc k)
  show ?case
  proof (cases "i < length xs")
    case True
    then show ?thesis by (simp add: tile_def nth_append)
  next
    case False
    then have "i - length xs < k * length xs" using Suc.prems by simp
    from Suc.IH [OF this] False show ?thesis
      by (simp add: tile_def nth_append le_mod_geq)
  qed
qed

lemma take_tile:
  assumes "n \<le> k * length xs"
  shows "take n (tile xs k) = spec_cover xs n"
  using assms by (intro nth_equalityI) (simp_all add: length_tile spec_cover_def tile_nth)

lemma n_tiles_cover:
  fixes d n :: nat
  assumes "0 < d"
  shows "n \<le> (n div d + 1) * d"
proof -
  have "n = n div d * d + n mod d" by simp
  also have "\<dots> \<le> n div d * d + d"
    using mod_less_divisor [OF assms, of n] by (intro add_left_mono less_imp_le)
  finally show ?thesis by simp
qed

lemma length_roll: "length (roll xs s) = length xs"
  by (auto simp add: roll_def Let_def)

lemma roll_index:
  assumes "0 < d"
  shows "nat ((- int s) mod int d) = (d - s mod d) mod d"
proof -
  have le: "s mod d \<le> d" using assms by (simp add: less_imp_le)
  have "(- int s) mod int d = (- (int s mod int d)) mod int d"
    by (simp add: mod_minus_eq)
  also have "\<dots> = (int d + - (int s mod int d)) mod int d"
    by simp
  also have "\<dots> = int (d - s mod d) mod int d"
    using le by (simp add: of_nat_diff of_nat_mod)
  also have "\<dots> = int ((d - s mod d) mod d)"
    by (simp add: of_nat_mod)
  finally show ?thesis by simp
qed

lemma roll_rotated:
  assumes "xs \<noteq> []"
  shows "roll xs (int s) = spec_rotated xs s"
proof (intro nth_equalityI)
  show "length (roll xs (int s)) = length (spec_rotated xs s)"
    by (simp add: length_roll spec_rotated_def)
next
  fix j assume "j < length (roll xs (int s))"
  then have j: "j < length xs" by (simp add: length_roll)
  let ?d = "length xs"
  define i where "i = (?d - s mod ?d) mod ?d"
  have d: "0 < ?d" using assms by simp
  have i: "i < ?d" using d by (simp add: i_def)
  have r: "roll xs (int s) = drop i xs @ take i xs"
    using assms roll_index [OF d, of s] by (simp add: roll_def i_def Let_def)
  have "(drop i xs @ take i xs) ! j = xs ! ((j + i) mod ?d)"
  proof (cases "j < ?d - i")
    case True
    then show ?thesis by (simp add: nth_append add.commute)
  next
    case False
    then have ge: "?d \<le> j + i" by arith
    have "j + i - ?d < ?d" using i j by arith
    with ge have "(j + i) mod ?d = j + i - ?d"
      by (simp add: le_mod_geq)
    moreover have "j - (?d - i) = j + i - ?d" using i False by simp
    ultimately show ?thesis using False i j by (simp add: nth_append)
  qed
  also have "(j + i) mod ?d = (j + ?d - s mod ?d) mod ?d"
    using d by (simp add: i_def mod_add_right_eq less_imp_le)
  finally show "roll xs (int s) ! j = spec_rotated xs s ! j"
    using j r by (simp add: spec_rotated_def)
qed

lemma tiled_roll:
  assumes "params \<noteq> []"
  shows "take nz (tile (roll params (int s)) (nz div length params + 1))
    = spec_cover (spec_rotated params s) nz"
proof -
  have "nz \<le> (nz div length params + 1) * length (roll params (int s))"
    using assms by (simp only: length_roll) (rule n_tiles_cover, simp)
  then show ?thesis
    by (simp only: take_tile roll_rotated [OF assms])
qed

lemma roll_0: "roll xs 0 = xs"
  by (simp add: roll_def)


lemma length_spec_cover: "length (spec_cover xs n) = n"
  by (simp add: spec_cover_def)

subsection \<open>Special values propagate\<close>

text \<open>
  The lemmas of this part are for any scalar type and any predicate \<open>is_fin\<close> on it
  that obeys the laws they assume: a value that is not finite stays so through the
  sum, the difference and the product, and a quotient by zero is not finite.
\<close>

lemma zero_pivotE:
  assumes "\<not> nonzero_pivots a b c f"
  obtains k where "k < length b" "pivot a b c f k = 0"
  using assms by (auto simp add: nonzero_pivots_def list_all_iff)

lemma special_at_zero_pivot:
  fixes a b c f :: "'a::{zero,one,plus,minus,uminus,times,inverse} list"
  assumes mul_left: "\<And>x y. \<not> is_fin x \<Longrightarrow> \<not> is_fin (x * y)"
    and div_zero: "\<And>x. \<not> is_fin (x / 0)"
    and piv: "pivot a b c f k = 0"
  shows "\<not> is_fin (fst (fq_seq a b c f k))"
proof (cases k)
  case 0
  with piv have "b ! 0 = 0" by (simp add: pivot_def)
  with 0 show ?thesis by (simp add: div_zero)
next
  case (Suc j)
  obtain fp qp where fq: "fq_seq a b c f j = (fp, qp)" by (cases "fq_seq a b c f j")
  with piv Suc have "b ! Suc j + a ! Suc j * qp = 0" by (simp add: pivot_def)
  with Suc fq show ?thesis
    by (simp add: Let_def mul_left div_zero)
qed

lemma special_forward_step:
  fixes a b c f :: "'a::{zero,one,plus,minus,uminus,times,inverse} list"
  assumes sub_right: "\<And>x y. \<not> is_fin y \<Longrightarrow> \<not> is_fin (x - y)"
    and mul_right: "\<And>x y. \<not> is_fin y \<Longrightarrow> \<not> is_fin (x * y)"
    and prev: "\<not> is_fin (fst (fq_seq a b c f j))"
  shows "\<not> is_fin (fst (fq_seq a b c f (Suc j)))"
proof -
  obtain fp qp where fq: "fq_seq a b c f j = (fp, qp)" by (cases "fq_seq a b c f j")
  with prev have "\<not> is_fin fp" by simp
  then have "\<not> is_fin (a ! Suc j * fp)" by (rule mul_right)
  then have "\<not> is_fin (f ! Suc j - a ! Suc j * fp)" by (rule sub_right)
  then have "\<not> is_fin (1 / (b ! Suc j + a ! Suc j * qp) * (f ! Suc j - a ! Suc j * fp))"
    by (rule mul_right)
  with fq show ?thesis by (simp add: Let_def)
qed

lemma special_forward_after:
  fixes a b c f :: "'a::{zero,one,plus,minus,uminus,times,inverse} list"
  assumes sub_right: "\<And>x y. \<not> is_fin y \<Longrightarrow> \<not> is_fin (x - y)"
    and mul_right: "\<And>x y. \<not> is_fin y \<Longrightarrow> \<not> is_fin (x * y)"
    and at_k: "\<not> is_fin (fst (fq_seq a b c f k))"
  shows "k \<le> j \<Longrightarrow> \<not> is_fin (fst (fq_seq a b c f j))"
proof (induction j)
  case 0
  with at_k show ?case by simp
next
  case (Suc j)
  show ?case
  proof (cases "k = Suc j")
    case True
    with at_k show ?thesis by simp
  next
    case False
    with Suc.prems have "k \<le> j" by simp
    then have "\<not> is_fin (fst (fq_seq a b c f j))" by (rule Suc.IH)
    with sub_right mul_right show ?thesis by (rule special_forward_step)
  qed
qed

lemma special_backward:
  fixes f q :: "'a::{plus,times} list"
  assumes add_right: "\<And>x y. \<not> is_fin y \<Longrightarrow> \<not> is_fin (x + y)"
    and mul_right: "\<And>x y. \<not> is_fin y \<Longrightarrow> \<not> is_fin (x * y)"
    and ne: "f \<noteq> []" and last: "\<not> is_fin (f ! (length f - 1))"
  shows "\<not> is_fin (x_seq f q i)"
proof (induction "length f - i" arbitrary: i)
  case 0
  with ne last show ?case by (simp add: x_seq.simps [of f q i])
next
  case (Suc d)
  show ?case
  proof (cases "Suc i < length f")
    case True
    with Suc.hyps have "\<not> is_fin (x_seq f q (Suc i))"
      by (intro Suc.hyps(1)) simp
    then have "\<not> is_fin (q ! i * x_seq f q (Suc i))" by (rule mul_right)
    then have "\<not> is_fin (f ! i + q ! i * x_seq f q (Suc i))" by (rule add_right)
    with True show ?thesis
      by (simp add: x_seq.simps [of f q i])
  next
    case False
    with ne last show ?thesis by (simp add: x_seq.simps [of f q i])
  qed
qed

text \<open>The type \<open>fval\<close> obeys the five laws.\<close>

lemma nonfin_add_right: "\<not> is_finite y \<Longrightarrow> \<not> is_finite (x + y)"
  by (cases x; cases y) (simp_all add: fval_ops)

lemma nonfin_sub_right: "\<not> is_finite y \<Longrightarrow> \<not> is_finite (x - y)"
  by (cases x; cases y) (simp_all add: fval_ops)

lemma nonfin_mul_right: "\<not> is_finite y \<Longrightarrow> \<not> is_finite (x * y)"
  by (cases x; cases y) (simp_all add: fval_ops)

lemma nonfin_mul_left: "\<not> is_finite x \<Longrightarrow> \<not> is_finite (x * y)"
  by (cases x; cases y) (simp_all add: fval_ops)

lemma nonfin_div_zero: "\<not> is_finite (x / (0::fval))"
  by (cases x) (simp_all add: fval_ops)

section \<open>Properties\<close>

lemma upt_0_2: "[0..<2] = [0, Suc 0]"
  by (simp add: numeral_2_eq_2)

text \<open>
  C1. For \<open>n \<ge> 1\<close> and four real sequences of length \<open>n\<close> with no zero pivot,
  \<open>tridiag_solve\<close> returns a sequence \<open>x\<close> of length \<open>n\<close> that satisfies every
  equation of the system: \<open>a[i] x[i-1] + b[i] x[i] + c[i] x[i+1] = f[i]\<close> for
  \<open>i = 0 .. n-1\<close>, the neighbours outside the range counting as 0.
\<close>

theorem solve_correct:
  fixes a b c f :: "real list"
  assumes "1 \<le> n" "length a = n" "length b = n" "length c = n" "length f = n"
    and "nonzero_pivots a b c f"
  shows "\<exists>x. tridiag_solve a b c f = Inr x \<and> length x = n \<and>
    (\<forall>i<n. row_lhs a b c x i = f ! i)"
proof -
  define x where "x = map (x_seq (map (\<lambda>i. fst (fq_seq a b c f i)) [0..<n])
                           (map (\<lambda>i. snd (fq_seq a b c f i)) [0..<n])) [0..<n]"
  have "tridiag_solve a b c f = Inr x"
    unfolding x_def by (rule tridiag_solve_seq [OF assms(1-5)])
  moreover have "length x = n" by (simp add: x_def)
  moreover have "row_lhs a b c x i = f ! i" if "i < n" for i
    using assms x_def that by (rule solve_rows)
  ultimately show ?thesis by blast
qed

theorem solve_correct_witness:
  "(1::nat) \<le> 2 \<and> length [0, 1 :: real] = 2 \<and> length [2, 2 :: real] = 2 \<and>
   length [1, 0 :: real] = 2 \<and> length [1, 3 :: real] = 2 \<and>
   nonzero_pivots [0, 1] [2, 2] [1, 0] [1, 3 :: real] \<and>
   (\<exists>x. tridiag_solve [0, 1] [2, 2] [1, 0] [1, 3 :: real] = Inr x \<and> length x = 2 \<and>
      row_lhs [0, 1] [2, 2] [1, 0] x 0 = 1 \<and> row_lhs [0, 1] [2, 2] [1, 0] x 1 = 3)"
proof -
  have piv: "nonzero_pivots [0, 1] [2, 2] [1, 0] [1, 3 :: real]"
    by (simp add: nonzero_pivots_def pivot_def upt_0_2)
  from solve_correct [of 2 "[0, 1]" "[2, 2]" "[1, 0]" "[1, 3]", OF _ _ _ _ _ piv]
  obtain x where x: "tridiag_solve [0, 1] [2, 2] [1, 0] [1, 3 :: real] = Inr x" "length x = 2"
    "\<forall>i<2. row_lhs [0, 1] [2, 2] [1, 0] x i = [1, 3] ! i"
    by auto
  from x(3) have "row_lhs [0, 1] [2, 2] [1, 0] x 0 = 1" "row_lhs [0, 1] [2, 2] [1, 0] x 1 = 3"
    by fastforce+
  with x(1,2) piv show ?thesis by simp
qed

text \<open>
  C2. For equal-length inputs of length \<open>n\<close>, the forward pass returns exactly the
  sequences \<open>f_0 .. f_{n-1}\<close> and \<open>q_0 .. q_{n-1}\<close> of the recurrence \<open>fq_seq\<close>:
  the seed \<open>f[0]/b[0]\<close>, \<open>-c[0]/b[0]\<close> and one elimination step per later index.
  It holds from \<open>n = 1\<close> on, hence for every \<open>n \<ge> 2\<close>, and in any scalar
  arithmetic, the two sides dividing by the same pivots.
\<close>

theorem forward_pass_recurrence:
  assumes "1 \<le> n" "length a = n" "length b = n" "length c = n" "length f = n"
  shows "forward_pass a b c f =
    Inr (map (\<lambda>i. fst (fq_seq a b c f i)) [0..<n], map (\<lambda>i. snd (fq_seq a b c f i)) [0..<n])"
  using assms by (intro forward_pass_seq) simp_all

theorem forward_pass_recurrence_witness:
  "(1::nat) \<le> 2 \<and> length [0, 1 :: real] = 2 \<and> length [2, 2 :: real] = 2 \<and>
   length [1, 0 :: real] = 2 \<and> length [1, 3 :: real] = 2 \<and>
   forward_pass [0, 1] [2, 2] [1, 0] [1, 3 :: real] = Inr ([1 / 2, 5 / 3], [- 1 / 2, 0])"
  using forward_pass_recurrence [of 2 "[0, 1]" "[2, 2]" "[1, 0]" "[1, 3 :: real]"]
  by (simp add: upt_0_2 Let_def)

text \<open>
  C3. Given forward sequences \<open>f\<close> and \<open>q\<close> of length \<open>n \<ge> 1\<close>, the backward pass
  (reverse, scan, reverse again) returns in natural order exactly the sequence
  \<open>x_{n-1} = f_{n-1}\<close>, \<open>x_i = f_i + q_i x_{i+1}\<close> of \<open>x_seq\<close>.
\<close>

theorem backward_pass_recurrence:
  assumes "1 \<le> n" "length f = n" "length q = n"
  shows "backward_pass f q = Inr (map (x_seq f q) [0..<n])"
  using assms by (rule backward_pass_seq)

theorem backward_pass_recurrence_witness:
  "(1::nat) \<le> 2 \<and> length [1 / 2, 5 / 3 :: real] = 2 \<and> length [- 1 / 2, 0 :: real] = 2 \<and>
   backward_pass [1 / 2, 5 / 3] [- 1 / 2, 0 :: real] = Inr [- 1 / 3, 5 / 3]"
  using backward_pass_recurrence [of 2 "[1 / 2, 5 / 3]" "[- 1 / 2, 0 :: real]"]
  by (simp add: upt_0_2 x_seq.simps [of _ _ 0] x_seq.simps [of _ _ "Suc 0"])

text \<open>
  C4. For \<open>n = 1\<close> and \<open>b \<noteq> 0\<close> both scans run over an empty list of rows, and
  \<open>tridiag_solve [a0] [b] [c0] [f]\<close> is the singleton \<open>[f / b]\<close>, whatever \<open>a0\<close>
  and \<open>c0\<close> are.
\<close>

theorem solve_singleton:
  fixes b :: real
  assumes "b \<noteq> 0"
  shows "stack4_tail [a0] [b] [c0] [f] = [] \<and>
         stack2_rev_tail [- c0 / b] [f / b] = [] \<and>
         tridiag_solve [a0] [b] [c0] [f] = Inr [f / b]"
  by (simp add: tridiag_solve_def forward_pass_def backward_pass_def stack4_tail_def
      stack2_rev_tail_def Let_def)

theorem solve_singleton_witness:
  "(2::real) \<noteq> 0 \<and> stack4_tail [7] [2] [9] [1 :: real] = [] \<and>
   stack2_rev_tail [- 9 / 2] [1 / 2 :: real] = [] \<and>
   tridiag_solve [7] [2] [9] [1 :: real] = Inr [1 / 2]"
  using solve_singleton [of 2 7 9 1] by simp

text \<open>
  C5. The system \<open>2 x0 + x1 = 1\<close>, \<open>x0 + 2 x1 = 3\<close>, given as \<open>a = [0, 1]\<close>,
  \<open>b = [2, 2]\<close>, \<open>c = [1, 0]\<close>, \<open>f = [1, 3]\<close>, is solved by \<open>x = [-1/3, 5/3]\<close>, exactly.
\<close>

theorem solve_known_2x2:
  "tridiag_solve [0, 1] [2, 2] [1, 0] [1, 3 :: real] = Inr [- 1 / 3, 5 / 3]"
  by (simp add: tridiag_solve_def forward_pass_def backward_pass_def stack4_tail_def
      stack2_rev_tail_def forward_scan_scal_def reverse_scan_scal_def Let_def)

text \<open>
  C6. For \<open>params\<close> of length \<open>d\<close> with \<open>1 \<le> d \<le> nz\<close>, \<open>scal_fun params\<close> is the
  Euclidean norm of the solution of the system whose sequences \<open>a\<close>, \<open>b\<close>, \<open>c\<close>, \<open>f\<close>
  are \<open>params\<close> rotated by 0, 1, 2, 3, repeated cyclically and truncated to \<open>nz\<close>
  entries, with the offsets \<open>+0.5\<close>, \<open>+2\<close>, \<open>+0.5\<close> and none.
\<close>

theorem scal_fun_assembles:
  assumes "1 \<le> length params" "length params \<le> nz"
  shows "\<exists>x. tridiag_solve (spec_a params) (spec_b params) (spec_c params) (spec_f params) = Inr x
    \<and> scal_fun params = Inr (sqrt (\<Sum>v\<leftarrow>x. v ^ 2))"
proof -
  from assms(1) have ne: "params \<noteq> []" by auto
  let ?k = "nz div length params + 1"
  have a: "take nz (tile params ?k) = spec_cover (spec_rotated params 0) nz"
    using tiled_roll [OF ne, of 0] by (simp add: roll_0)
  have b: "take nz (tile (roll params 1) ?k) = spec_cover (spec_rotated params 1) nz"
    using tiled_roll [OF ne, of 1] by simp
  have c: "take nz (tile (roll params 2) ?k) = spec_cover (spec_rotated params 2) nz"
    using tiled_roll [OF ne, of 2] by simp
  have f: "take nz (tile (roll params 3) ?k) = spec_cover (spec_rotated params 3) nz"
    using tiled_roll [OF ne, of 3] by simp
  have "1 \<le> nz" by (simp add: nz_def)
  then obtain x where
    x: "tridiag_solve (spec_a params) (spec_b params) (spec_c params) (spec_f params) = Inr x"
    using tridiag_solve_seq [of nz "spec_a params" "spec_b params" "spec_c params" "spec_f params"]
    by (simp add: spec_a_def spec_b_def spec_c_def spec_f_def length_spec_cover)
  have "scal_fun params =
      (case tridiag_solve (spec_a params) (spec_b params) (spec_c params) (spec_f params) of
         Inl e \<Rightarrow> Inl e | Inr x \<Rightarrow> Inr (linalg_norm x))"
    unfolding scal_fun_def Let_def a b c f spec_a_def spec_b_def spec_c_def spec_f_def
    using ne by simp
  with x have "scal_fun params = Inr (linalg_norm x)" by simp
  also have "linalg_norm x = sqrt (\<Sum>v\<leftarrow>x. v ^ 2)"
    by (simp add: linalg_norm_def power2_eq_square)
  finally show ?thesis using x by simp
qed

theorem scal_fun_assembles_witness:
  "1 \<le> length [1, 2, 3 :: real] \<and> length [1, 2, 3 :: real] \<le> nz \<and>
   spec_b [1, 2, 3] ! 0 = 5 \<and> spec_b [1, 2, 3] ! 1 = 3 \<and> spec_b [1, 2, 3] ! 2 = 4 \<and>
   spec_b [1, 2, 3] ! 3 = 5 \<and>
   (\<exists>x. tridiag_solve (spec_a [1, 2, 3]) (spec_b [1, 2, 3]) (spec_c [1, 2, 3]) (spec_f [1, 2, 3])
        = Inr x \<and> scal_fun [1, 2, 3] = Inr (sqrt (\<Sum>v\<leftarrow>x. v ^ 2)))"
proof -
  have "spec_b [1, 2, 3] ! 0 = 5" "spec_b [1, 2, 3] ! 1 = 3" "spec_b [1, 2, 3] ! 2 = 4"
    "spec_b [1, 2, 3] ! 3 = 5"
    by (simp_all add: spec_b_def spec_cover_def spec_rotated_def nz_def)
  with scal_fun_assembles [of "[1, 2, 3]"] show ?thesis by (simp add: nz_def)
qed

text \<open>
  C7. Two runs of \<open>tridiag_solve\<close> on inputs of length \<open>n \<ge> 1\<close> that agree everywhere
  except possibly at \<open>a[0]\<close> and at \<open>c[n-1]\<close> return the same result.
\<close>

theorem solve_ignores_a0_and_c_last:
  assumes "1 \<le> n" "length a = n" "length a' = n" "length b = n" "length c = n"
    "length c' = n" "length f = n"
    and "\<forall>j<n. 0 < j \<longrightarrow> a ! j = a' ! j"
    and "\<forall>j<n. Suc j < n \<longrightarrow> c ! j = c' ! j"
  shows "tridiag_solve a b c f = tridiag_solve a' b c' f"
  using assms by (intro solve_cong [of n]) simp_all

theorem solve_ignores_a0_and_c_last_witness:
  "tridiag_solve [0, 1] [2, 2] [1, 0] [1, 3 :: real]
     = tridiag_solve [5, 1] [2, 2] [1, 8] [1, 3 :: real] \<and>
   tridiag_solve [5, 1] [2, 2] [1, 8] [1, 3 :: real] = Inr [- 1 / 3, 5 / 3]"
proof -
  have "tridiag_solve [0, 1] [2, 2] [1, 0] [1, 3 :: real]
      = tridiag_solve [5, 1] [2, 2] [1, 8] [1, 3 :: real]"
    by (rule solve_ignores_a0_and_c_last [of 2]) (simp_all add: less_Suc_eq numeral_2_eq_2)
  moreover have "tridiag_solve [5, 1] [2, 2] [1, 8] [1, 3 :: real] = Inr [- 1 / 3, 5 / 3]"
    by (simp add: tridiag_solve_def forward_pass_def backward_pass_def stack4_tail_def
      stack2_rev_tail_def forward_scan_scal_def reverse_scan_scal_def Let_def)
  ultimately show ?thesis by simp
qed

text \<open>
  C9. When some pivot is zero, \<open>tridiag_solve\<close> raises no error: it still returns a
  sequence of length \<open>n\<close>, and no entry of it is finite. This holds in every scalar
  arithmetic, the pivots being computed in that arithmetic, in which a value that is not
  finite (an infinity or NaN) stays so through \<open>+\<close>, \<open>-\<close> and \<open>*\<close> and in which every
  quotient by zero is not finite, as in floating point.
\<close>

theorem solve_zero_pivot_returns_nonfinite:
  fixes a b c f :: "'a::{zero,one,plus,minus,uminus,times,inverse} list"
    and is_fin :: "'a \<Rightarrow> bool"
  assumes "1 \<le> n" "length a = n" "length b = n" "length c = n" "length f = n"
    and add_right: "\<And>x y. \<not> is_fin y \<Longrightarrow> \<not> is_fin (x + y)"
    and sub_right: "\<And>x y. \<not> is_fin y \<Longrightarrow> \<not> is_fin (x - y)"
    and mul_right: "\<And>x y. \<not> is_fin y \<Longrightarrow> \<not> is_fin (x * y)"
    and mul_left: "\<And>x y. \<not> is_fin x \<Longrightarrow> \<not> is_fin (x * y)"
    and div_zero: "\<And>x. \<not> is_fin (x / 0)"
    and zero_pivot: "\<not> nonzero_pivots a b c f"
  shows "\<exists>x. tridiag_solve a b c f = Inr x \<and> length x = n \<and>
    list_all (\<lambda>v. \<not> is_fin v) x"
proof -
  let ?F = "map (\<lambda>i. fst (fq_seq a b c f i)) [0..<n]"
  let ?Q = "map (\<lambda>i. snd (fq_seq a b c f i)) [0..<n]"
  from zero_pivot obtain k where k: "k < length b" "pivot a b c f k = 0"
    by (rule zero_pivotE)
  from mul_left div_zero k(2) have at_k: "\<not> is_fin (fst (fq_seq a b c f k))"
    by (rule special_at_zero_pivot)
  have "k \<le> n - 1" using k(1) assms(3) by simp
  with sub_right mul_right at_k have "\<not> is_fin (fst (fq_seq a b c f (n - 1)))"
    by (rule special_forward_after)
  then have last: "\<not> is_fin (?F ! (length ?F - 1))"
    using assms(1) by simp
  have ne: "?F \<noteq> []" using assms(1) by simp
  have "\<not> is_fin (x_seq ?F ?Q i)" for i
    using add_right mul_right ne last by (rule special_backward)
  then have "list_all (\<lambda>v. \<not> is_fin v) (map (x_seq ?F ?Q) [0..<n])"
    by (simp add: list_all_iff)
  moreover have "tridiag_solve a b c f = Inr (map (x_seq ?F ?Q) [0..<n])"
    by (rule tridiag_solve_seq [OF assms(1-5)])
  ultimately show ?thesis by simp
qed

theorem solve_zero_pivot_returns_nonfinite_witness:
  "\<not> nonzero_pivots [Fin 0, Fin 1] [Fin 1, Fin 1] [Fin 1, Fin 0] [Fin 1, Fin 2] \<and>
   tridiag_solve [Fin 0, Fin 1] [Fin 1, Fin 1] [Fin 1, Fin 0] [Fin 1, Fin 2] = Inr [NInf, PInf] \<and>
   (\<exists>x. tridiag_solve [Fin 0, Fin 1] [Fin 1, Fin 1] [Fin 1, Fin 0] [Fin 1, Fin 2] = Inr x \<and>
      length x = 2 \<and> list_all (\<lambda>v. \<not> is_finite v) x)"
proof -
  have piv: "\<not> nonzero_pivots [Fin 0, Fin 1] [Fin 1, Fin 1] [Fin 1, Fin 0] [Fin 1, Fin 2]"
    by (simp add: nonzero_pivots_def pivot_def upt_0_2 fval_ops)
  have val: "tridiag_solve [Fin 0, Fin 1] [Fin 1, Fin 1] [Fin 1, Fin 0] [Fin 1, Fin 2]
      = Inr [NInf, PInf]"
    by (simp add: tridiag_solve_def forward_pass_def backward_pass_def stack4_tail_def
      stack2_rev_tail_def forward_scan_scal_def reverse_scan_scal_def Let_def fval_ops)
  have "\<exists>x. tridiag_solve [Fin 0, Fin 1] [Fin 1, Fin 1] [Fin 1, Fin 0] [Fin 1, Fin 2] = Inr x \<and>
      length x = 2 \<and> list_all (\<lambda>v. \<not> is_finite v) x"
  proof (rule solve_zero_pivot_returns_nonfinite [of 2])
    show "\<not> nonzero_pivots [Fin 0, Fin 1] [Fin 1, Fin 1] [Fin 1, Fin 0] [Fin 1, Fin 2]"
      by (rule piv)
  qed (simp_all add: nonfin_add_right nonfin_sub_right nonfin_mul_right nonfin_mul_left
      nonfin_div_zero del: is_finite.simps)
  with piv val show ?thesis by (simp del: is_finite.simps)
qed

text \<open>
  C10. For \<open>n \<ge> 1\<close> and equal-length inputs no error branch is taken: the forward pass
  returns two sequences of length \<open>n\<close>, the backward pass accepts them, and the solution
  has length exactly \<open>n\<close>.
\<close>

theorem solve_total_length:
  assumes "1 \<le> n" "length a = n" "length b = n" "length c = n" "length f = n"
  shows "\<exists>f' q' x. forward_pass a b c f = Inr (f', q') \<and> length f' = n \<and> length q' = n \<and>
           backward_pass f' q' = Inr x \<and> tridiag_solve a b c f = Inr x \<and> length x = n"
proof -
  let ?F = "map (\<lambda>i. fst (fq_seq a b c f i)) [0..<n]"
  let ?Q = "map (\<lambda>i. snd (fq_seq a b c f i)) [0..<n]"
  have "forward_pass a b c f = Inr (?F, ?Q)" by (rule forward_pass_seq [OF assms])
  moreover have "backward_pass ?F ?Q = Inr (map (x_seq ?F ?Q) [0..<n])"
    using assms(1) by (intro backward_pass_seq) simp_all
  moreover have "tridiag_solve a b c f = Inr (map (x_seq ?F ?Q) [0..<n])"
    by (rule tridiag_solve_seq [OF assms])
  ultimately show ?thesis by simp
qed

theorem solve_total_length_witness:
  "(1::nat) \<le> 2 \<and> length [0, 1 :: real] = 2 \<and>
   (\<exists>f' q' x. forward_pass [0, 1] [2, 2] [1, 0] [1, 3 :: real] = Inr (f', q') \<and>
      length f' = 2 \<and> length q' = 2 \<and> backward_pass f' q' = Inr x \<and>
      tridiag_solve [0, 1] [2, 2] [1, 0] [1, 3 :: real] = Inr x \<and> length x = 2)"
  using solve_total_length [of 2 "[0, 1]" "[2, 2]" "[1, 0]" "[1, 3 :: real]"] by simp

end
